theory Spec2Isabelle
  imports Main
begin

section \<open>Shared JavaScript primitives\<close>

text \<open>
  \<^verbatim>\<open>Array.prototype.splice(start, deleteCount)\<close> removes \<open>deleteCount\<close> elements
  from the array, beginning at \<open>start\<close>, and returns them. The array object itself is
  changed, so the model returns both the removed elements and the array as it is left
  behind. A \<open>start\<close> beyond the end is clamped to the length, which \<open>take\<close> and
  \<open>drop\<close> do as well.
\<close>

definition splice_js :: "nat \<Rightarrow> nat \<Rightarrow> 'a list \<Rightarrow> 'a list \<times> 'a list" where
  "splice_js start deleteCount xs =
     (take deleteCount (drop start xs), take start xs @ drop (start + deleteCount) xs)"

section \<open>The search history (\<^verbatim>\<open>searchHistory\<close>)\<close>

text \<open>
  An entry of \<^verbatim>\<open>self.data\<close> is the object \<^verbatim>\<open>{created: new Date(), title: title}\<close>.
  The clock is read by the caller of the model and passed in as a number.
\<close>

record entry =
  created :: nat
  title :: string

text \<open>
  \<^verbatim>\<open>listElement.style.display\<close>: the store writes \<^verbatim>\<open>'block'\<close> or \<^verbatim>\<open>'none'\<close>; before
  the first write the inline style is not set and the style sheet decides.
\<close>

datatype css_display = Display_block | Display_none | Display_unset

datatype level = Warn | Error

text \<open>
  The state of one \<^verbatim>\<open>searchHistory\<close> object: its \<^verbatim>\<open>data\<close> array, the list items
  that \<^verbatim>\<open>updateList\<close> has put under \<^verbatim>\<open>listElement\<close> (one per entry rendered), the
  element's \<^verbatim>\<open>style.display\<close>, and what the object has written to the console.
\<close>

record history =
  data :: "entry list"
  rendered :: "entry list"
  display :: css_display
  console :: "(level \<times> string) list"

definition new_history :: "css_display \<Rightarrow> history" where
  "new_history d = \<lparr>data = [], rendered = [], display = d, console = []\<rparr>"

text \<open>\<^verbatim>\<open>self.toggle = function(show) { if (show) display = 'block'; else display = 'none'; }\<close>\<close>

definition toggle :: "bool \<Rightarrow> history \<Rightarrow> history" where
  "toggle shown h =
     (if shown then h\<lparr>display := Display_block\<rparr> else h\<lparr>display := Display_none\<rparr>)"

text \<open>
  \<^verbatim>\<open>updateList\<close> empties the list element, appends one item per entry of \<^verbatim>\<open>self.data\<close>
  and ends with \<^verbatim>\<open>self.toggle(self.data.length > 0)\<close>.
\<close>

definition updateList :: "history \<Rightarrow> history" where
  "updateList h = toggle (0 < length (data h)) (h\<lparr>rendered := data h\<rparr>)"

text \<open>\<^verbatim>\<open>isDuplicate(title)\<close>: \<^verbatim>\<open>self.data.some(item => item.title === title)\<close>.\<close>

definition isDuplicate :: "string \<Rightarrow> history \<Rightarrow> bool" where
  "isDuplicate t h = list_ex (\<lambda>item. title item = t) (data h)"

text \<open>
  \<^verbatim>\<open>self.add(title)\<close>: a duplicate is answered with \<^verbatim>\<open>console.warn\<close> and an early
  return (before \<^verbatim>\<open>updateList\<close>); otherwise the entry is pushed and the list redrawn.
\<close>

definition add :: "string \<Rightarrow> nat \<Rightarrow> history \<Rightarrow> history" where
  "add t now h =
     (if isDuplicate t h then h\<lparr>console := console h @ [(Warn, t)]\<rparr>
      else updateList (h\<lparr>data := data h @ [\<lparr>created = now, title = t\<rparr>]\<rparr>))"

text \<open>
  \<^verbatim>\<open>self.remove(title)\<close> walks the array with \<^verbatim>\<open>forEach\<close> and splices a matching
  entry out of the very array it is walking. \<^verbatim>\<open>forEach\<close> reads the length once, before
  the first call (\<open>len\<close>), then visits the indices \<open>0, 1, ..., len - 1\<close> in turn,
  skipping an index that the array no longer has, and reads the element that is at the
  index at the time of the visit.
\<close>

function remove_loop :: "string \<Rightarrow> nat \<Rightarrow> nat \<Rightarrow> entry list \<Rightarrow> entry list" where
  "remove_loop t len k xs =
     (if k < len
      then remove_loop t len (Suc k)
             (if k < length xs \<and> title (xs ! k) = t then snd (splice_js k 1 xs) else xs)
      else xs)"
  by pat_completeness auto
termination
  by (relation "measure (\<lambda>(t, len, k, xs). len - k)") auto

declare remove_loop.simps [simp del]

definition remove :: "string \<Rightarrow> history \<Rightarrow> history" where
  "remove t h = updateList (h\<lparr>data := remove_loop t (length (data h)) 0 (data h)\<rparr>)"

text \<open>
  The two operations callers have, and a run of them. \<open>Add t now\<close> carries the clock
  reading that \<^verbatim>\<open>new Date()\<close> returns during the call.
\<close>

datatype history_op = Add string nat | Remove string

fun apply_history_op :: "history_op \<Rightarrow> history \<Rightarrow> history" where
  "apply_history_op (Add t now) h = add t now h"
| "apply_history_op (Remove t) h = remove t h"

definition run_history :: "history_op list \<Rightarrow> history \<Rightarrow> history" where
  "run_history ops h = fold apply_history_op ops h"

definition titles :: "history \<Rightarrow> string list" where
  "titles h = map title (data h)"

section \<open>The debouncer (\<^verbatim>\<open>Helpers.debounce\<close>)\<close>

text \<open>
  \<^verbatim>\<open>Helpers.debounce(callback, time)\<close> returns a function that shares one variable,
  \<^verbatim>\<open>timeout\<close>, among all its invocations. The state of one debounced function is that
  variable, the browser's table of timers that are set and have not run (identifier, the
  time the timer is due, the arguments its callback will pass on), the next identifier
  \<^verbatim>\<open>setTimeout\<close> hands out, and the log of the calls of \<^verbatim>\<open>callback\<close> made so far,
  each with the due time of the timer that made it and its arguments. Time is counted in
  milliseconds.
\<close>

record 'a debouncer =
  timeout :: "nat option"
  timers :: "(nat \<times> nat \<times> 'a) list"
  next_timer :: nat
  downstream :: "(nat \<times> 'a) list"

definition new_debouncer :: "'a debouncer" where
  "new_debouncer = \<lparr>timeout = None, timers = [], next_timer = 0, downstream = []\<rparr>"

text \<open>
  \<^verbatim>\<open>clearTimeout(id)\<close> takes the timer with this identifier out of the table; for
  \<^verbatim>\<open>undefined\<close>, \<^verbatim>\<open>null\<close> or an identifier that is no longer set it does nothing.
\<close>

definition clearTimeout :: "nat option \<Rightarrow> 'a debouncer \<Rightarrow> 'a debouncer" where
  "clearTimeout tid d = d\<lparr>timers := filter (\<lambda>(i, due, a). Some i \<noteq> tid) (timers d)\<rparr>"

definition setTimeout :: "nat \<Rightarrow> nat \<Rightarrow> 'a \<Rightarrow> 'a debouncer \<Rightarrow> nat \<times> 'a debouncer" where
  "setTimeout now delay a d =
     (next_timer d,
      d\<lparr>timers := timers d @ [(next_timer d, now + delay, a)],
        next_timer := Suc (next_timer d)\<rparr>)"

text \<open>
  One invocation of the debounced function at time \<open>now\<close> with arguments \<open>a\<close>:
  \<^verbatim>\<open>clearTimeout(timeout); timeout = setTimeout(function() {...}, time);\<close>
\<close>

definition debounced :: "nat \<Rightarrow> nat \<Rightarrow> 'a \<Rightarrow> 'a debouncer \<Rightarrow> 'a debouncer" where
  "debounced time now a d =
     (let d1 = clearTimeout (timeout d) d;
          (tid, d2) = setTimeout now time a d1
      in d2\<lparr>timeout := Some tid\<rparr>)"

text \<open>
  The browser runs a timer that is due: the timer leaves the table and its function runs,
  \<^verbatim>\<open>timeout = null; callback.apply(context, args);\<close>
\<close>

definition fire_timer :: "nat \<times> nat \<times> 'a \<Rightarrow> 'a debouncer \<Rightarrow> 'a debouncer" where
  "fire_timer tm d =
     (case tm of (i, due, a) \<Rightarrow>
        d\<lparr>timers := filter (\<lambda>(j, due', a'). j \<noteq> i) (timers d),
          timeout := None,
          downstream := downstream d @ [(due, a)]\<rparr>)"

text \<open>
  Letting the clock reach \<open>now\<close> runs every timer due by then, the earliest first. A
  timer's function sets no timer, so the timers to run are those of the table at the start.
\<close>

definition run_timers :: "nat \<Rightarrow> 'a debouncer \<Rightarrow> 'a debouncer" where
  "run_timers now d =
     fold fire_timer
       (sort_key (\<lambda>(i, due, a). due) (filter (\<lambda>(i, due, a). due \<le> now) (timers d))) d"

text \<open>
  A run of invocations, each with the time at which it happens, in the order of time:
  the timers due by the time of an invocation run before it.
\<close>

definition invoke_at :: "nat \<Rightarrow> nat \<times> 'a \<Rightarrow> 'a debouncer \<Rightarrow> 'a debouncer" where
  "invoke_at time ev d = debounced time (fst ev) (snd ev) (run_timers (fst ev) d)"

definition run_invocations :: "nat \<Rightarrow> (nat \<times> 'a) list \<Rightarrow> 'a debouncer \<Rightarrow> 'a debouncer" where
  "run_invocations time evs d = fold (invoke_at time) evs d"

text \<open>
  A burst within the delay window: the invocations are in the order of time, and each
  follows the one before it by less than the delay.
\<close>

fun within_window :: "nat \<Rightarrow> (nat \<times> 'a) list \<Rightarrow> bool" where
  "within_window time [] = True"
| "within_window time [e] = True"
| "within_window time (e1 # e2 # es) =
     (fst e1 \<le> fst e2 \<and> fst e2 < fst e1 + time \<and> within_window time (e2 # es))"

section \<open>The search session (\<^verbatim>\<open>HttpRequest\<close>, \<^verbatim>\<open>iTunesApi\<close>, the input handler)\<close>

text \<open>A record of the provider's answer, with the two fields the program reads.\<close>

record raw =
  artistName :: string
  trackName :: string

definition MIN_TERM_LENGTH :: nat where
  "MIN_TERM_LENGTH = 3"

definition MAX_RESULTS :: nat where
  "MAX_RESULTS = 5"

text \<open>\<^verbatim>\<open>result.artistName + ' - ' + result.trackName\<close>\<close>

definition render :: "raw \<Rightarrow> string" where
  "render result = artistName result @ '' - '' @ trackName result"

text \<open>
  The formatting in the success callback,
  \<^verbatim>\<open>data.results.splice(0, MAX_RESULTS).map(function(result) {...})\<close>,
  as a function of the array \<^verbatim>\<open>data.results\<close>: the first component is
  \<^verbatim>\<open>formattedResults\<close>, the second is the array \<^verbatim>\<open>data.results\<close> as the call
  leaves it.
\<close>

definition format_results :: "raw list \<Rightarrow> string list \<times> raw list" where
  "format_results rs =
     (case splice_js 0 MAX_RESULTS rs of (removed, rest) \<Rightarrow> (map render removed, rest))"

text \<open>
  \<^verbatim>\<open>XMLHttpRequest.readyState\<close>. A request that has been sent and has neither
  completed nor been aborted is in one of the three middle states.
\<close>

datatype ready_state = UNSENT | OPENED | HEADERS_RECEIVED | LOADING | DONE

text \<open>
  One \<^verbatim>\<open>XMLHttpRequest\<close> object made by \<^verbatim>\<open>HttpRequest\<close>. \<open>response\<close> is
  \<^verbatim>\<open>request.response\<close> read as JSON: \<open>Some rs\<close> is an object whose \<^verbatim>\<open>results\<close>
  is the array \<open>rs\<close>, \<open>None\<close> is \<^verbatim>\<open>null\<close> (no body, or a body that is not the
  provider's JSON). \<open>url_term\<close> is the term in the URL. \<open>onreadystatechange\<close> tells
  whether the handler of lines 61-78 is still assigned (the handler sets it to
  \<^verbatim>\<open>null\<close> when it has handled completion).
\<close>

record xhr =
  readyState :: ready_state
  status :: nat
  response :: "raw list option"
  url_term :: string
  onreadystatechange :: bool

text \<open>What the program asks of the transport: \<^verbatim>\<open>send\<close> on a new request, \<^verbatim>\<open>abort\<close>.\<close>

datatype xhr_call = Send nat string | Abort nat

text \<open>
  The state the search session works on: \<^verbatim>\<open>request\<close> of \<^verbatim>\<open>iTunesApi\<close> (a handle is
  the index of the object in \<open>xhrs\<close>), every \<^verbatim>\<open>XMLHttpRequest\<close> made so far,
  \<^verbatim>\<open>gui.searchResults.data\<close>, the calls of \<^verbatim>\<open>console.error\<close> by the error callback
  (the request it was called on and its argument), and the calls made to the transport.
\<close>

record session =
  request :: "nat option"
  xhrs :: "xhr list"
  results :: "string list"
  errors :: "(nat \<times> raw list option) list"
  calls :: "xhr_call list"

definition new_session :: session where
  "new_session = \<lparr>request = None, xhrs = [], results = [], errors = [], calls = []\<rparr>"

definition in_flight :: "xhr \<Rightarrow> bool" where
  "in_flight x =
     (readyState x = OPENED \<or> readyState x = HEADERS_RECEIVED \<or> readyState x = LOADING)"

definition pending :: "session \<Rightarrow> nat \<Rightarrow> bool" where
  "pending s h = (h < length (xhrs s) \<and> in_flight (xhrs s ! h))"

definition update_xhr :: "nat \<Rightarrow> (xhr \<Rightarrow> xhr) \<Rightarrow> session \<Rightarrow> session" where
  "update_xhr h f s = s\<lparr>xhrs := (xhrs s)[h := f (xhrs s ! h)]\<rparr>"

text \<open>\<^verbatim>\<open>gui.searchResults.set(items)\<close> and \<^verbatim>\<open>gui.searchResults.empty()\<close>.\<close>

definition set_results :: "string list \<Rightarrow> session \<Rightarrow> session" where
  "set_results items s = s\<lparr>results := items\<rparr>"

definition empty_results :: "session \<Rightarrow> session" where
  "empty_results s = s\<lparr>results := []\<rparr>"

text \<open>
  The success callback of the input handler, called on request \<open>h\<close> with
  \<^verbatim>\<open>data = request.response\<close>. With \<^verbatim>\<open>data\<close> being \<^verbatim>\<open>null\<close> the expression
  \<^verbatim>\<open>data.results\<close> throws a TypeError before anything is changed: the value \<open>None\<close>.
\<close>

definition success :: "nat \<Rightarrow> session \<Rightarrow> session option" where
  "success h s =
     (case response (xhrs s ! h) of
        None \<Rightarrow> None
      | Some rs \<Rightarrow>
          (case format_results rs of (formattedResults, rest) \<Rightarrow>
             Some (set_results formattedResults
                     (update_xhr h (\<lambda>x. x\<lparr>response := Some rest\<rparr>) s))))"

text \<open>The error callback: \<^verbatim>\<open>console.error('An error occurred ...', err)\<close>.\<close>

definition error :: "nat \<Rightarrow> session \<Rightarrow> session" where
  "error h s = s\<lparr>errors := errors s @ [(h, response (xhrs s ! h))]\<rparr>"

text \<open>The complete callback that \<^verbatim>\<open>searchTrack\<close> passes: \<^verbatim>\<open>request = null\<close>.\<close>

definition complete :: "session \<Rightarrow> session" where
  "complete s = s\<lparr>request := None\<rparr>"

text \<open>
  The handler that \<^verbatim>\<open>HttpRequest\<close> assigns to \<^verbatim>\<open>request.onreadystatechange\<close>.
  \<^verbatim>\<open>searchTrack\<close> is the only caller of \<^verbatim>\<open>HttpRequest\<close> and always passes the three
  callbacks, so the tests \<^verbatim>\<open>if (settings.success)\<close>, \<^verbatim>\<open>else if (settings.error)\<close> and
  \<^verbatim>\<open>if (settings.complete)\<close> succeed. An exception thrown by the success callback
  leaves the handler at once: neither \<^verbatim>\<open>complete\<close> nor the assignment of \<^verbatim>\<open>null\<close>
  is reached.
\<close>

definition readystatechange_handler :: "nat \<Rightarrow> session \<Rightarrow> session" where
  "readystatechange_handler h s =
     (if readyState (xhrs s ! h) = DONE then
        (if status (xhrs s ! h) = 200 then
           (case success h s of
              None \<Rightarrow> s
            | Some s1 \<Rightarrow> update_xhr h (\<lambda>x. x\<lparr>onreadystatechange := False\<rparr>) (complete s1))
         else update_xhr h (\<lambda>x. x\<lparr>onreadystatechange := False\<rparr>) (complete (error h s)))
      else s)"

text \<open>
  The browser's side of \<^verbatim>\<open>XMLHttpRequest\<close>, as the XMLHttpRequest standard has it.
  Firing \<^verbatim>\<open>readystatechange\<close> at a request calls the handler assigned to it, if any.
\<close>

definition fire_readystatechange :: "nat \<Rightarrow> session \<Rightarrow> session" where
  "fire_readystatechange h s =
     (if onreadystatechange (xhrs s ! h) then readystatechange_handler h s else s)"

text \<open>
  \<^verbatim>\<open>abort()\<close>, the steps of the standard: for a request that has been sent and is not
  done, the request error steps run (the state becomes \<^verbatim>\<open>DONE\<close>, the response a network
  error, so that \<^verbatim>\<open>status\<close> reads 0 and \<^verbatim>\<open>response\<close> reads \<^verbatim>\<open>null\<close>, and
  \<^verbatim>\<open>readystatechange\<close> is fired); then, the state being \<^verbatim>\<open>DONE\<close>, it is set to
  \<^verbatim>\<open>UNSENT\<close> with no further event. For a request that is already done only the last
  step applies. The fetch is terminated: nothing arrives for the request afterwards.
\<close>

definition xhr_abort :: "nat \<Rightarrow> session \<Rightarrow> session" where
  "xhr_abort h s =
     (if h < length (xhrs s) then
        (if in_flight (xhrs s ! h) then
           update_xhr h (\<lambda>x. x\<lparr>readyState := UNSENT\<rparr>)
             (fire_readystatechange h
                (update_xhr h (\<lambda>x. x\<lparr>readyState := DONE, status := 0, response := None\<rparr>) s))
         else if readyState (xhrs s ! h) = DONE then
           update_xhr h (\<lambda>x. x\<lparr>readyState := UNSENT, status := 0, response := None\<rparr>) s
         else s)
      else s)"

text \<open>
  \<^verbatim>\<open>HttpRequest(settings)\<close>: a new \<^verbatim>\<open>XMLHttpRequest\<close> with the handler assigned,
  opened and sent; the new handle is returned. (\<^verbatim>\<open>open\<close> fires \<^verbatim>\<open>readystatechange\<close>
  in state \<^verbatim>\<open>OPENED\<close>, which the handler ignores.)
\<close>

definition HttpRequest :: "string \<Rightarrow> session \<Rightarrow> nat \<times> session" where
  "HttpRequest t s =
     (length (xhrs s),
      s\<lparr>xhrs := xhrs s @
           [\<lparr>readyState = OPENED, status = 0, response = None, url_term = t,
             onreadystatechange = True\<rparr>],
        calls := calls s @ [Send (length (xhrs s)) t]\<rparr>)"

text \<open>\<^verbatim>\<open>iTunesApi.searchTrack\<close>, first statement: \<^verbatim>\<open>if (request) request.abort();\<close>\<close>

definition abort_prior :: "session \<Rightarrow> session" where
  "abort_prior s =
     (case request s of
        None \<Rightarrow> s
      | Some h \<Rightarrow> xhr_abort h (s\<lparr>calls := calls s @ [Abort h]\<rparr>))"

text \<open>\<^verbatim>\<open>iTunesApi.searchTrack\<close>: the abort, then \<^verbatim>\<open>request = new HttpRequest({...})\<close>.\<close>

definition searchTrack :: "string \<Rightarrow> session \<Rightarrow> session" where
  "searchTrack t s =
     (case HttpRequest t (abort_prior s) of (h, s2) \<Rightarrow> s2\<lparr>request := Some h\<rparr>)"

text \<open>
  The function given to \<^verbatim>\<open>gui.searchInput.onChange\<close>, called with the value of the input
  when the debounce timer runs. \<^verbatim>\<open>!value\<close> holds for the empty string.
\<close>

definition on_change :: "string \<Rightarrow> session \<Rightarrow> session" where
  "on_change v s =
     (if v = [] \<or> length v < MIN_TERM_LENGTH then empty_results s else searchTrack v s)"

text \<open>
  What can happen to a session: the input handler is called with a value; the browser
  moves a request in flight to its next state short of completion; the browser completes
  a request in flight with a status and a response. The browser fires these events only
  at a request in flight: one that is done or aborted gets none.
\<close>

datatype event = Change string | Progress nat | Done nat nat "raw list option"

fun next_state :: "ready_state \<Rightarrow> ready_state" where
  "next_state OPENED = HEADERS_RECEIVED"
| "next_state HEADERS_RECEIVED = LOADING"
| "next_state st = st"

fun step :: "event \<Rightarrow> session \<Rightarrow> session" where
  "step (Change v) s = on_change v s"
| "step (Progress h) s =
     (if pending s h
      then fire_readystatechange h
             (update_xhr h (\<lambda>x. x\<lparr>readyState := next_state (readyState x)\<rparr>) s)
      else s)"
| "step (Done h st resp) s =
     (if pending s h
      then fire_readystatechange h
             (update_xhr h (\<lambda>x. x\<lparr>readyState := DONE, status := st, response := resp\<rparr>) s)
      else s)"

definition run :: "event list \<Rightarrow> session \<Rightarrow> session" where
  "run es s = fold step es s"

text \<open>
  The invariant of the session that the proofs below carry along a run: a request in
  flight is the one \<^verbatim>\<open>request\<close> refers to and still has its handler, and
  \<^verbatim>\<open>request\<close> refers to an object that exists.
\<close>

definition session_inv :: "session \<Rightarrow> bool" where
  "session_inv s =
     ((\<forall>h. pending s h \<longrightarrow> request s = Some h \<and> onreadystatechange (xhrs s ! h)) \<and>
      (\<forall>h. request s = Some h \<longrightarrow> h < length (xhrs s)))"

text \<open>
  A request the session is done with: it exists, it is not pending, and \<^verbatim>\<open>request\<close>
  does not refer to it.
\<close>

definition retired :: "session \<Rightarrow> nat \<Rightarrow> bool" where
  "retired s h = (h < length (xhrs s) \<and> \<not> pending s h \<and> request s \<noteq> Some h)"

section \<open>The search history: proofs\<close>

lemma splice_js_one: "snd (splice_js k (Suc 0) xs) = take k xs @ drop (Suc k) xs"
  by (simp add: splice_js_def)

lemma remove_loop_no_match:
  "(\<And>i. k \<le> i \<Longrightarrow> i < length xs \<Longrightarrow> title (xs ! i) \<noteq> t) \<Longrightarrow> remove_loop t len k xs = xs"
proof (induction t len k xs rule: remove_loop.induct)
  case (1 t len k xs)
  show ?case
  proof (cases "k < len")
    case True
    have nomatch: "\<not> (k < length xs \<and> title (xs ! k) = t)"
      using "1.prems"[of k] by auto
    have "remove_loop t len k xs = remove_loop t len (Suc k) xs"
      using True nomatch by (subst remove_loop.simps) auto
    also have "\<dots> = xs"
      using "1.IH"[OF True] nomatch "1.prems" by auto
    finally show ?thesis .
  next
    case False
    then show ?thesis by (subst remove_loop.simps) simp
  qed
qed

lemma remove_loop_absent: "t \<notin> title ` set xs \<Longrightarrow> remove_loop t len k xs = xs"
  by (rule remove_loop_no_match) (auto simp: image_iff)

lemma filter_single_match:
  assumes "distinct (map title xs)" "k < length xs" "title (xs ! k) = t"
  shows "filter (\<lambda>e. title e \<noteq> t) xs = take k xs @ drop (Suc k) xs"
    and "t \<notin> title ` set (take k xs @ drop (Suc k) xs)"
proof -
  have xs: "xs = take k xs @ xs ! k # drop (Suc k) xs"
    using assms(2) by (rule id_take_nth_drop)
  have "distinct (map title (take k xs @ xs ! k # drop (Suc k) xs))"
    using assms(1) xs by simp
  then have a: "t \<notin> title ` set (take k xs)" and b: "t \<notin> title ` set (drop (Suc k) xs)"
    using assms(3) by auto
  show "t \<notin> title ` set (take k xs @ drop (Suc k) xs)"
    using a b by auto
  have "filter (\<lambda>e. title e \<noteq> t) xs
      = filter (\<lambda>e. title e \<noteq> t) (take k xs @ xs ! k # drop (Suc k) xs)"
    using xs by simp
  also have "\<dots> = filter (\<lambda>e. title e \<noteq> t) (take k xs)
                  @ filter (\<lambda>e. title e \<noteq> t) (drop (Suc k) xs)"
    using assms(3) by simp
  also have "\<dots> = take k xs @ drop (Suc k) xs"
  proof -
    have "filter (\<lambda>e. title e \<noteq> t) (take k xs) = take k xs"
      using a by (auto simp: filter_id_conv)
    moreover have "filter (\<lambda>e. title e \<noteq> t) (drop (Suc k) xs) = drop (Suc k) xs"
      using b by (auto simp: filter_id_conv)
    ultimately show ?thesis by simp
  qed
  finally show "filter (\<lambda>e. title e \<noteq> t) xs = take k xs @ drop (Suc k) xs" .
qed

lemma remove_loop_distinct:
  "distinct (map title xs) \<Longrightarrow> len = length xs \<Longrightarrow>
   (\<And>i. i < k \<Longrightarrow> i < length xs \<Longrightarrow> title (xs ! i) \<noteq> t) \<Longrightarrow>
   remove_loop t len k xs = filter (\<lambda>e. title e \<noteq> t) xs"
proof (induction t len k xs rule: remove_loop.induct)
  case (1 t len k xs)
  show ?case
  proof (cases "k < len")
    case False
    have "\<And>x. x \<in> set xs \<Longrightarrow> title x \<noteq> t"
      using "1.prems"(2,3) False by (auto simp: in_set_conv_nth)
    then have "filter (\<lambda>e. title e \<noteq> t) xs = xs"
      by (simp add: filter_id_conv)
    then show ?thesis
      using False by (subst remove_loop.simps) simp
  next
    case True
    then have klen: "k < length xs"
      using "1.prems"(2) by simp
    show ?thesis
    proof (cases "title (xs ! k) = t")
      case match: True
      let ?ys = "take k xs @ drop (Suc k) xs"
      have "remove_loop t len k xs = remove_loop t len (Suc k) ?ys"
        using True klen match by (subst remove_loop.simps) (simp add: splice_js_one)
      also have "\<dots> = ?ys"
        using filter_single_match(2)[OF "1.prems"(1) klen match] by (rule remove_loop_absent)
      also have "\<dots> = filter (\<lambda>e. title e \<noteq> t) xs"
        using filter_single_match(1)[OF "1.prems"(1) klen match] by simp
      finally show ?thesis .
    next
      case nomatch: False
      have "remove_loop t len k xs = remove_loop t len (Suc k) xs"
        using True nomatch by (subst remove_loop.simps) simp
      also have "\<dots> = filter (\<lambda>e. title e \<noteq> t) xs"
      proof -
        have "\<And>i. i < Suc k \<Longrightarrow> i < length xs \<Longrightarrow> title (xs ! i) \<noteq> t"
          using "1.prems"(3) nomatch less_Suc_eq by auto
        with "1.IH"[OF True] "1.prems"(1,2) nomatch show ?thesis
          by simp
      qed
      finally show ?thesis .
    qed
  qed
qed

lemma updateList_fields [simp]:
  "data (updateList h) = data h"
  "console (updateList h) = console h"
  "rendered (updateList h) = data h"
  "display (updateList h) = (if 0 < length (data h) then Display_block else Display_none)"
  by (simp_all add: updateList_def toggle_def)

lemma isDuplicate_iff: "isDuplicate t h = (t \<in> set (titles h))"
  by (auto simp: isDuplicate_def titles_def list_ex_iff)

lemma count_title_distinct:
  "distinct (map title xs) \<Longrightarrow> x \<in> set (map title xs) \<Longrightarrow>
   length (filter (\<lambda>e. title e = x) xs) = 1"
proof (induction xs)
  case Nil
  then show ?case by simp
next
  case (Cons e es)
  show ?case
  proof (cases "title e = x")
    case True
    then have "x \<notin> title ` set es"
      using Cons.prems(1) by auto
    then have "filter (\<lambda>e. title e = x) es = []"
      by (auto simp: filter_empty_conv)
    then show ?thesis
      using True by simp
  next
    case False
    then show ?thesis
      using Cons by auto
  qed
qed

lemma run_history_snoc: "run_history (ops @ [op]) h = apply_history_op op (run_history ops h)"
  by (simp add: run_history_def)

text \<open>
  C8. \<^verbatim>\<open>add(title)\<close>, for every state of the store: the duplicate test is exact
  equality of titles; when the title is present the call only writes a warning (the
  entries, their timestamps and order, the rendered list and the visibility stay as they
  are); when it is absent one entry with the current time is appended at the end. Hence
  adding the same title twice to a store with unique titles leaves exactly one entry of
  that title, on the empty store the entry of the first call, and \<^verbatim>\<open>add("Song1")\<close>,
  \<^verbatim>\<open>add("Song1")\<close>, \<^verbatim>\<open>add("Song2")\<close> on the empty store gives the titles
  \<^verbatim>\<open>["Song1", "Song2"]\<close>.
\<close>

theorem add_rejects_duplicate:
  "(isDuplicate t h \<longleftrightarrow> t \<in> set (titles h))
   \<and> (t \<in> set (titles h) \<longrightarrow> add t now h = h\<lparr>console := console h @ [(Warn, t)]\<rparr>)
   \<and> (t \<notin> set (titles h) \<longrightarrow>
        data (add t now h) = data h @ [\<lparr>created = now, title = t\<rparr>]
        \<and> console (add t now h) = console h)
   \<and> (distinct (titles h) \<longrightarrow>
        length (filter (\<lambda>e. title e = x) (data (add x n2 (add x n1 h)))) = 1)
   \<and> data (add x n2 (add x n1 (new_history d))) = [\<lparr>created = n1, title = x\<rparr>]
   \<and> titles (run_history [Add ''Song1'' n1, Add ''Song1'' n2, Add ''Song2'' n3] (new_history d))
       = [''Song1'', ''Song2'']"
proof -
  have dup: "t \<in> set (titles h) \<longrightarrow> add t now h = h\<lparr>console := console h @ [(Warn, t)]\<rparr>"
    by (simp add: add_def isDuplicate_iff)
  have fresh: "t \<notin> set (titles h) \<longrightarrow>
        data (add t now h) = data h @ [\<lparr>created = now, title = t\<rparr>]
        \<and> console (add t now h) = console h"
    by (simp add: add_def isDuplicate_iff)
  have twice: "distinct (titles h) \<longrightarrow>
        length (filter (\<lambda>e. title e = x) (data (add x n2 (add x n1 h)))) = 1"
  proof
    assume dist: "distinct (titles h)"
    show "length (filter (\<lambda>e. title e = x) (data (add x n2 (add x n1 h)))) = 1"
    proof (cases "x \<in> set (titles h)")
      case True
      then have "data (add x n2 (add x n1 h)) = data h"
        by (simp add: add_def isDuplicate_iff titles_def)
      then show ?thesis
        using count_title_distinct[of "data h" x] dist True by (simp add: titles_def)
    next
      case False
      then have "data (add x n2 (add x n1 h)) = data h @ [\<lparr>created = n1, title = x\<rparr>]"
        by (simp add: add_def isDuplicate_iff titles_def)
      moreover have "filter (\<lambda>e. title e = x) (data h) = []"
        using False by (auto simp: filter_empty_conv titles_def)
      ultimately show ?thesis by simp
    qed
  qed
  have empty2: "data (add x n2 (add x n1 (new_history d))) = [\<lparr>created = n1, title = x\<rparr>]"
    by (simp add: add_def isDuplicate_def new_history_def)
  have songs: "titles (run_history [Add ''Song1'' n1, Add ''Song1'' n2, Add ''Song2'' n3] (new_history d))
       = [''Song1'', ''Song2'']"
    by (simp add: run_history_def add_def isDuplicate_def new_history_def titles_def)
  show ?thesis
    using dup fresh twice empty2 songs isDuplicate_iff by blast
qed

text \<open>
  The theorem at a store that holds \<^verbatim>\<open>"X"\<close>: adding \<^verbatim>\<open>"X"\<close> again is rejected with
  a warning, adding \<^verbatim>\<open>"x"\<close> (another title: the comparison is case-sensitive) appends.
\<close>

theorem add_rejects_duplicate_witness:
  "''X'' \<in> set (titles (add ''X'' 10 (new_history Display_unset)))
   \<and> data (add ''X'' 20 (add ''X'' 10 (new_history Display_unset))) = [\<lparr>created = 10, title = ''X''\<rparr>]
   \<and> console (add ''X'' 20 (add ''X'' 10 (new_history Display_unset))) = [(Warn, ''X'')]
   \<and> ''x'' \<notin> set (titles (add ''X'' 10 (new_history Display_unset)))
   \<and> data (add ''x'' 20 (add ''X'' 10 (new_history Display_unset)))
       = [\<lparr>created = 10, title = ''X''\<rparr>, \<lparr>created = 20, title = ''x''\<rparr>]
   \<and> distinct (titles (add ''X'' 10 (new_history Display_unset)))
   \<and> length (filter (\<lambda>e. title e = ''X'')
        (data (add ''X'' 30 (add ''X'' 20 (add ''X'' 10 (new_history Display_unset)))))) = 1"
proof -
  let ?h = "add ''X'' 10 (new_history Display_unset)"
  have h: "?h = \<lparr>data = [\<lparr>created = 10, title = ''X''\<rparr>], rendered = [\<lparr>created = 10, title = ''X''\<rparr>],
                 display = Display_block, console = []\<rparr>"
    by (simp add: add_def isDuplicate_def new_history_def updateList_def toggle_def)
  have a: "''X'' \<in> set (titles ?h)" and b: "''x'' \<notin> set (titles ?h)" and c: "distinct (titles ?h)"
    by (simp_all add: h titles_def)
  show ?thesis
    using a b c add_rejects_duplicate[of "''X''" ?h 20 "''X''" 30 20 Display_unset]
      add_rejects_duplicate[of "''x''" ?h 20 "''X''" 30 20 Display_unset]
    by (simp add: h)
qed

lemma apply_history_op_synced:
  "(data h \<noteq> [] \<Longrightarrow> display h = Display_block) \<Longrightarrow>
   display (apply_history_op op h)
     = (if 0 < length (data (apply_history_op op h)) then Display_block else Display_none)"
  by (cases op) (auto simp: add_def remove_def isDuplicate_def)

lemma remove_data_distinct:
  "distinct (titles h) \<Longrightarrow> data (remove t h) = filter (\<lambda>e. title e \<noteq> t) (data h)"
  using remove_loop_distinct[of "data h" "length (data h)" 0 t]
  by (simp add: remove_def titles_def)

text \<open>
  The stores that \<^verbatim>\<open>add\<close> and \<^verbatim>\<open>remove\<close> build from the new store: no two entries
  share a title (\<^verbatim>\<open>add\<close> rejects a duplicate, and nothing else writes \<^verbatim>\<open>self.data\<close>),
  the rendered list is the data, and after the first operation the visibility follows
  the data.
\<close>

lemma reachable_history:
  "h = run_history ops (new_history d) \<Longrightarrow>
   distinct (titles h) \<and> rendered h = data h
   \<and> (ops \<noteq> [] \<longrightarrow>
        display h = (if 0 < length (data h) then Display_block else Display_none))"
proof (induction ops arbitrary: h rule: rev_induct)
  case Nil
  then show ?case
    by (simp add: run_history_def new_history_def titles_def)
next
  case (snoc op ops)
  let ?g = "run_history ops (new_history d)"
  have g: "distinct (titles ?g)" "rendered ?g = data ?g"
    and gs: "ops \<noteq> [] \<Longrightarrow>
        display ?g = (if 0 < length (data ?g) then Display_block else Display_none)"
    using snoc.IH[OF refl] by simp_all
  have h: "h = apply_history_op op ?g"
    using snoc.prems by (simp add: run_history_snoc)
  have shown: "data ?g \<noteq> [] \<Longrightarrow> display ?g = Display_block"
  proof (cases "ops = []")
    case True
    then show "data ?g \<noteq> [] \<Longrightarrow> ?thesis"
      by (simp add: run_history_def new_history_def)
  next
    case False
    then show "data ?g \<noteq> [] \<Longrightarrow> ?thesis"
      using gs by simp
  qed
  have sync: "display h = (if 0 < length (data h) then Display_block else Display_none)"
    unfolding h using shown by (rule apply_history_op_synced)
  have "distinct (titles h) \<and> rendered h = data h"
  proof (cases op)
    case (Add t now)
    show ?thesis
    proof (cases "t \<in> set (titles ?g)")
      case True
      then show ?thesis
        using g by (simp add: h Add add_def isDuplicate_iff titles_def)
    next
      case False
      then show ?thesis
        using g by (simp add: h Add add_def isDuplicate_iff titles_def)
    qed
  next
    case (Remove t)
    have "data h = filter (\<lambda>e. title e \<noteq> t) (data ?g)"
      using remove_data_distinct[OF g(1)] by (simp add: h Remove)
    moreover have "rendered h = data h"
      by (simp add: h Remove remove_def)
    ultimately show ?thesis
      using g(1) by (simp add: titles_def distinct_map_filter)
  qed
  then show ?case
    using sync by simp
qed

text \<open>
  C9. \<^verbatim>\<open>remove(title)\<close>, for every store that a run of \<^verbatim>\<open>add\<close> and \<^verbatim>\<open>remove\<close>
  builds from the new store: every entry whose title is exactly the given one is deleted,
  the others stay in their order, and no entry of that title is left. \<^verbatim>\<open>remove\<close> writes
  nothing to the console. When the title is not present the entries and the rendered list
  are as before, and after at least one operation the whole store, its visibility
  included, is as before. (On the new store itself the call hides the list element,
  whose display was not set until then.)
\<close>

theorem remove_by_title_reachable:
  "h = run_history ops (new_history d) \<Longrightarrow>
   data (remove t h) = filter (\<lambda>e. title e \<noteq> t) (data h)
   \<and> t \<notin> set (titles (remove t h))
   \<and> console (remove t h) = console h
   \<and> (t \<notin> set (titles h) \<longrightarrow>
        data (remove t h) = data h \<and> rendered (remove t h) = rendered h
        \<and> (ops \<noteq> [] \<longrightarrow> remove t h = h))"
proof -
  assume r: "h = run_history ops (new_history d)"
  note R = reachable_history[OF r]
  have dist: "distinct (titles h)" and rend: "rendered h = data h"
    using R by simp_all
  have a: "data (remove t h) = filter (\<lambda>e. title e \<noteq> t) (data h)"
    using dist by (rule remove_data_distinct)
  have b: "t \<notin> set (titles (remove t h))"
    by (auto simp: titles_def a)
  have c: "console (remove t h) = console h"
    by (simp add: remove_def)
  have d: "t \<notin> set (titles h) \<longrightarrow>
        data (remove t h) = data h \<and> rendered (remove t h) = rendered h
        \<and> (ops \<noteq> [] \<longrightarrow> remove t h = h)"
  proof (intro impI conjI)
    assume n: "t \<notin> set (titles h)"
    have l: "remove_loop t (length (data h)) 0 (data h) = data h"
      using n by (intro remove_loop_absent) (simp add: titles_def)
    show "data (remove t h) = data h"
      by (simp add: remove_def l)
    show "rendered (remove t h) = rendered h"
      by (simp add: remove_def l rend)
    assume "ops \<noteq> []"
    then have s: "display h = (if 0 < length (data h) then Display_block else Display_none)"
      using R by simp
    show "remove t h = h"
      using s rend by (simp add: remove_def l updateList_def toggle_def)
  qed
  show ?thesis
    using a b c d by blast
qed

text \<open>
  On the store \<^verbatim>\<open>A, B, C\<close>: removing \<^verbatim>\<open>"B"\<close> leaves \<^verbatim>\<open>A, C\<close>, removing \<^verbatim>\<open>"Y"\<close>
  leaves the store as it is.
\<close>

theorem remove_by_title_reachable_witness:
  "data (run_history [Add ''A'' 10, Add ''B'' 20, Add ''C'' 30] (new_history Display_unset))
     = [\<lparr>created = 10, title = ''A''\<rparr>, \<lparr>created = 20, title = ''B''\<rparr>,
        \<lparr>created = 30, title = ''C''\<rparr>]
   \<and> data (remove ''B'' (run_history [Add ''A'' 10, Add ''B'' 20, Add ''C'' 30]
                           (new_history Display_unset)))
       = [\<lparr>created = 10, title = ''A''\<rparr>, \<lparr>created = 30, title = ''C''\<rparr>]
   \<and> ''Y'' \<notin> set (titles (run_history [Add ''A'' 10, Add ''B'' 20, Add ''C'' 30]
                                (new_history Display_unset)))
   \<and> [Add ''A'' 10, Add ''B'' 20, Add ''C'' 30] \<noteq> []
   \<and> remove ''Y'' (run_history [Add ''A'' 10, Add ''B'' 20, Add ''C'' 30]
                     (new_history Display_unset))
       = run_history [Add ''A'' 10, Add ''B'' 20, Add ''C'' 30] (new_history Display_unset)"
proof -
  let ?ops = "[Add ''A'' 10, Add ''B'' 20, Add ''C'' 30]"
  let ?h = "run_history ?ops (new_history Display_unset)"
  have dt: "data ?h = [\<lparr>created = 10, title = ''A''\<rparr>, \<lparr>created = 20, title = ''B''\<rparr>,
        \<lparr>created = 30, title = ''C''\<rparr>]"
    by (simp add: run_history_def add_def isDuplicate_def new_history_def)
  have y: "''Y'' \<notin> set (titles ?h)"
    by (simp add: titles_def dt)
  have ne: "?ops \<noteq> []"
    by simp
  have 1: "data (remove ''B'' ?h) = filter (\<lambda>e. title e \<noteq> ''B'') (data ?h)"
    using remove_by_title_reachable[OF refl, of "''B''" ?ops Display_unset] by blast
  have 2: "remove ''Y'' ?h = ?h"
    using remove_by_title_reachable[OF refl, of "''Y''" ?ops Display_unset] y ne by blast
  show ?thesis
    using dt y 1 2 by simp
qed

text \<open>
  The loop itself, on an array that holds a title twice in a row, skips the entry after
  the one it splices out. No run of \<^verbatim>\<open>add\<close> and \<^verbatim>\<open>remove\<close> builds such an array, as
  \<open>reachable_history\<close> shows.
\<close>

lemma remove_loop_skips_after_splice:
  "titles (remove ''X''
     \<lparr>data = [\<lparr>created = 10, title = ''X''\<rparr>, \<lparr>created = 20, title = ''X''\<rparr>],
      rendered = [], display = Display_block, console = []\<rparr>) = [''X'']"
  by (simp add: remove_def remove_loop.simps splice_js_def titles_def)

text \<open>
  C10. After every \<^verbatim>\<open>add\<close> or \<^verbatim>\<open>remove\<close> of a run that starts with the new store
  (whatever the visibility of the list element was), the element is shown if the store
  has an entry and hidden if it has none. The store does this itself: \<^verbatim>\<open>updateList\<close>
  ends with \<^verbatim>\<open>self.toggle(self.data.length > 0)\<close>, and the one path that skips
  \<^verbatim>\<open>updateList\<close>, the rejected \<^verbatim>\<open>add\<close>, runs only on a store that has an entry and
  is shown already.
\<close>

theorem history_visibility_synced:
  "ops \<noteq> [] \<Longrightarrow>
   display (run_history ops (new_history d))
     = (if 0 < length (data (run_history ops (new_history d))) then Display_block else Display_none)"
proof (induction ops rule: rev_induct)
  case Nil
  then show ?case by simp
next
  case (snoc op ops)
  have "data (run_history ops (new_history d)) \<noteq> [] \<Longrightarrow>
        display (run_history ops (new_history d)) = Display_block"
  proof (cases "ops = []")
    case True
    then show "data (run_history ops (new_history d)) \<noteq> [] \<Longrightarrow> ?thesis"
      by (simp add: run_history_def new_history_def)
  next
    case False
    then show "data (run_history ops (new_history d)) \<noteq> [] \<Longrightarrow> ?thesis"
      using snoc.IH by simp
  qed
  then show ?case
    unfolding run_history_snoc by (rule apply_history_op_synced)
qed

theorem history_visibility_synced_witness:
  "[Add ''X'' 10, Add ''X'' 2] \<noteq> []
   \<and> display (run_history [Add ''X'' 10, Add ''X'' 2] (new_history Display_unset)) = Display_block
   \<and> data (run_history [Add ''X'' 10, Add ''X'' 2] (new_history Display_unset))
       = [\<lparr>created = 10, title = ''X''\<rparr>]
   \<and> [Add ''X'' 10, Remove ''X''] \<noteq> []
   \<and> display (run_history [Add ''X'' 10, Remove ''X''] (new_history Display_unset)) = Display_none
   \<and> data (run_history [Add ''X'' 10, Remove ''X''] (new_history Display_unset)) = []"
proof -
  have d1: "data (run_history [Add ''X'' 10, Add ''X'' 2] (new_history Display_unset))
       = [\<lparr>created = 10, title = ''X''\<rparr>]"
    by (simp add: run_history_def add_def isDuplicate_def new_history_def)
  have d2: "data (run_history [Add ''X'' 10, Remove ''X''] (new_history Display_unset)) = []"
    by (simp add: run_history_def add_def remove_def isDuplicate_def new_history_def
        remove_loop.simps splice_js_def)
  show ?thesis
    using history_visibility_synced[of "[Add ''X'' 10, Add ''X'' 2]" Display_unset]
      history_visibility_synced[of "[Add ''X'' 10, Remove ''X'']" Display_unset] d1 d2
    by simp
qed

section \<open>The result formatter: proofs\<close>

text \<open>
  C6. With \<^verbatim>\<open>MAX_RESULTS = 5\<close> the formatted results are the first
  \<open>min (length rs) 5\<close> records in the order given, each as
  \<^verbatim>\<open>artistName + ' - ' + trackName\<close>: nothing is sorted, nothing is padded.
\<close>

theorem format_first_five:
  "fst (format_results rs) = map render (take 5 rs)
   \<and> length (fst (format_results rs)) = min (length rs) 5
   \<and> (\<forall>i. i < min (length rs) 5 \<longrightarrow>
        fst (format_results rs) ! i = artistName (rs ! i) @ '' - '' @ trackName (rs ! i))"
  by (simp add: format_results_def splice_js_def MAX_RESULTS_def render_def min_def)

text \<open>Seven records give the first five; one record gives one.\<close>

theorem format_first_five_witness:
  "fst (format_results
     [\<lparr>artistName = ''A'', trackName = ''T1''\<rparr>, \<lparr>artistName = ''A'', trackName = ''T2''\<rparr>,
      \<lparr>artistName = ''A'', trackName = ''T3''\<rparr>, \<lparr>artistName = ''A'', trackName = ''T4''\<rparr>,
      \<lparr>artistName = ''A'', trackName = ''T5''\<rparr>, \<lparr>artistName = ''A'', trackName = ''T6''\<rparr>,
      \<lparr>artistName = ''A'', trackName = ''T7''\<rparr>])
   = [''A - T1'', ''A - T2'', ''A - T3'', ''A - T4'', ''A - T5'']
   \<and> fst (format_results [\<lparr>artistName = ''B'', trackName = ''U''\<rparr>]) = [''B - U'']"
  using format_first_five[of
     "[\<lparr>artistName = ''A'', trackName = ''T1''\<rparr>, \<lparr>artistName = ''A'', trackName = ''T2''\<rparr>,
      \<lparr>artistName = ''A'', trackName = ''T3''\<rparr>, \<lparr>artistName = ''A'', trackName = ''T4''\<rparr>,
      \<lparr>artistName = ''A'', trackName = ''T5''\<rparr>, \<lparr>artistName = ''A'', trackName = ''T6''\<rparr>,
      \<lparr>artistName = ''A'', trackName = ''T7''\<rparr>]"]
    format_first_five[of "[\<lparr>artistName = ''B'', trackName = ''U''\<rparr>]"]
  by (simp add: render_def)

text \<open>
  C7 as stated fails: \<^verbatim>\<open>splice\<close> takes the records it returns out of the array it is
  called on. After formatting seven records the caller's array holds the last two.
\<close>

theorem format_mutates_input_counterexample:
  "snd (format_results
     [\<lparr>artistName = ''A'', trackName = ''T1''\<rparr>, \<lparr>artistName = ''A'', trackName = ''T2''\<rparr>,
      \<lparr>artistName = ''A'', trackName = ''T3''\<rparr>, \<lparr>artistName = ''A'', trackName = ''T4''\<rparr>,
      \<lparr>artistName = ''A'', trackName = ''T5''\<rparr>, \<lparr>artistName = ''A'', trackName = ''T6''\<rparr>,
      \<lparr>artistName = ''A'', trackName = ''T7''\<rparr>])
   = [\<lparr>artistName = ''A'', trackName = ''T6''\<rparr>, \<lparr>artistName = ''A'', trackName = ''T7''\<rparr>]"
  by (simp add: format_results_def splice_js_def MAX_RESULTS_def)

text \<open>
  C7, as the code has it. Formatting leaves in the caller's array the records from the
  sixth on; only the empty array is left as it was. No record is lost or changed: the
  formatted output followed by the rendering of what is left is the rendering of the input.
\<close>

theorem format_consumes_input:
  "snd (format_results rs) = drop 5 rs
   \<and> (snd (format_results rs) = rs \<longleftrightarrow> rs = [])
   \<and> fst (format_results rs) @ map render (snd (format_results rs)) = map render rs"
proof -
  have a: "snd (format_results rs) = drop 5 rs"
    by (simp add: format_results_def splice_js_def MAX_RESULTS_def)
  have "drop 5 rs = rs \<longleftrightarrow> rs = []"
  proof
    assume "drop 5 rs = rs"
    then have "length (drop 5 rs) = length rs" by simp
    then show "rs = []" by (cases rs) (auto simp: drop_Cons')
  qed simp
  moreover have "fst (format_results rs) @ map render (snd (format_results rs)) = map render rs"
    by (simp add: format_results_def splice_js_def MAX_RESULTS_def flip: map_append)
  ultimately show ?thesis using a by simp
qed

section \<open>The debouncer: proofs\<close>

lemma run_timers_armed:
  "run_timers now \<lparr>timeout = Some n, timers = [(n, due, a)], next_timer = m, downstream = lg\<rparr>
   = (if due \<le> now
      then \<lparr>timeout = None, timers = [], next_timer = m, downstream = lg @ [(due, a)]\<rparr>
      else \<lparr>timeout = Some n, timers = [(n, due, a)], next_timer = m, downstream = lg\<rparr>)"
  by (simp add: run_timers_def fire_timer_def)

lemma invoke_at_armed:
  "t < due \<Longrightarrow>
   invoke_at time (t, a)
     \<lparr>timeout = Some n, timers = [(n, due, a0)], next_timer = Suc n, downstream = lg\<rparr>
   = \<lparr>timeout = Some (Suc n), timers = [(Suc n, t + time, a)], next_timer = Suc (Suc n),
      downstream = lg\<rparr>"
  by (simp add: invoke_at_def run_timers_armed debounced_def clearTimeout_def setTimeout_def)

lemma invoke_at_idle:
  "timers d = [] \<Longrightarrow>
   invoke_at time (t, a) d
   = \<lparr>timeout = Some (next_timer d), timers = [(next_timer d, t + time, a)],
      next_timer = Suc (next_timer d), downstream = downstream d\<rparr>"
  by (simp add: invoke_at_def run_timers_def debounced_def clearTimeout_def setTimeout_def)

lemma run_invocations_Cons:
  "run_invocations time (ev # evs) d = run_invocations time evs (invoke_at time ev d)"
  by (simp add: run_invocations_def)

lemma run_invocations_armed:
  "within_window time ((t0, a0) # evs) \<Longrightarrow>
   run_invocations time evs
     \<lparr>timeout = Some n, timers = [(n, t0 + time, a0)], next_timer = Suc n, downstream = lg\<rparr>
   = \<lparr>timeout = Some (n + length evs),
      timers = [(n + length evs, fst (last ((t0, a0) # evs)) + time, snd (last ((t0, a0) # evs)))],
      next_timer = Suc (n + length evs), downstream = lg\<rparr>"
proof (induction evs arbitrary: n t0 a0)
  case Nil
  then show ?case by (simp add: run_invocations_def)
next
  case (Cons ev evs)
  obtain t1 a1 where ev: "ev = (t1, a1)"
    by (cases ev)
  have w: "t1 < t0 + time" and w': "within_window time ((t1, a1) # evs)"
    using Cons.prems by (simp_all add: ev)
  show ?case
    unfolding run_invocations_Cons ev invoke_at_armed[OF w]
    using Cons.IH[OF w', of "Suc n"] by simp
qed

text \<open>
  C5. Take a debounced function with no timer set (a new one, or one whose last timer has
  run) and a burst of \<open>N \<ge> 1\<close> invocations, each less than the delay after the one
  before it. During the burst the wrapped action does not run. After it exactly one timer
  is set, due the delay after the last invocation and holding the arguments of the last
  invocation: the timers of the \<open>N - 1\<close> earlier invocations have been cleared. Until that
  time nothing happens; once it is reached the action has run exactly once, with the
  arguments of the last invocation, and no timer is left.
\<close>

theorem debounce_collapse:
  "timers d0 = [] \<Longrightarrow> evs \<noteq> [] \<Longrightarrow> within_window time evs \<Longrightarrow>
   d = run_invocations time evs d0 \<Longrightarrow>
   downstream d = downstream d0
   \<and> timers d = [(next_timer d0 + length evs - 1, fst (last evs) + time, snd (last evs))]
   \<and> (\<forall>now. now < fst (last evs) + time \<longrightarrow> run_timers now d = d)
   \<and> (\<forall>now. fst (last evs) + time \<le> now \<longrightarrow>
         downstream (run_timers now d) = downstream d0 @ [(fst (last evs) + time, snd (last evs))]
         \<and> timers (run_timers now d) = [])"
proof -
  assume idle: "timers d0 = []" and ne: "evs \<noteq> []" and w: "within_window time evs"
    and d: "d = run_invocations time evs d0"
  obtain t0 a0 rest where evs: "evs = (t0, a0) # rest"
    using ne by (cases evs) auto
  have w': "within_window time ((t0, a0) # rest)"
    using w evs by simp
  have "d = \<lparr>timeout = Some (next_timer d0 + length rest),
          timers = [(next_timer d0 + length rest, fst (last evs) + time, snd (last evs))],
          next_timer = Suc (next_timer d0 + length rest), downstream = downstream d0\<rparr>"
    unfolding d evs run_invocations_Cons invoke_at_idle[OF idle]
    by (rule run_invocations_armed[OF w'])
  moreover have "next_timer d0 + length rest = next_timer d0 + length evs - 1"
    by (simp add: evs)
  ultimately have shape: "d = \<lparr>timeout = Some (next_timer d0 + length evs - 1),
          timers = [(next_timer d0 + length evs - 1, fst (last evs) + time, snd (last evs))],
          next_timer = Suc (next_timer d0 + length evs - 1), downstream = downstream d0\<rparr>"
    by simp
  show ?thesis
    by (subst (1 2 3 4 5 6) shape) (simp add: run_timers_armed)
qed

text \<open>
  The inputs \<^verbatim>\<open>"a"\<close>, \<^verbatim>\<open>"ab"\<close>, \<^verbatim>\<open>"abc"\<close> within 100 ms, with a delay of 250 ms: one
  call, for \<^verbatim>\<open>"abc"\<close>, at 340 ms.
\<close>

theorem debounce_collapse_witness:
  "timers (new_debouncer :: string debouncer) = []
   \<and> within_window 250 [(0, ''a''), (40, ''ab''), (90, ''abc'')]
   \<and> downstream (run_invocations 250 [(0, ''a''), (40, ''ab''), (90, ''abc'')] new_debouncer) = []
   \<and> timers (run_invocations 250 [(0, ''a''), (40, ''ab''), (90, ''abc'')] new_debouncer)
       = [(2, 340, ''abc'')]
   \<and> downstream (run_timers 340
        (run_invocations 250 [(0, ''a''), (40, ''ab''), (90, ''abc'')] new_debouncer))
       = [(340, ''abc'')]
   \<and> timers (run_timers 340
        (run_invocations 250 [(0, ''a''), (40, ''ab''), (90, ''abc'')] new_debouncer)) = []
   \<and> run_timers 339 (run_invocations 250 [(0, ''a''), (40, ''ab''), (90, ''abc'')] new_debouncer)
       = run_invocations 250 [(0, ''a''), (40, ''ab''), (90, ''abc'')] new_debouncer"
proof -
  let ?evs = "[(0::nat, ''a''), (40, ''ab''), (90, ''abc'')]"
  have i: "timers (new_debouncer :: string debouncer) = []"
    by (simp add: new_debouncer_def)
  have n: "?evs \<noteq> []"
    by simp
  have w: "within_window 250 ?evs"
    by simp
  note T = debounce_collapse[OF i n w refl]
  have a: "(339::nat) < fst (last ?evs) + 250" and b: "fst (last ?evs) + 250 \<le> (340::nat)"
    by simp_all
  have 1: "run_timers 339 (run_invocations 250 ?evs new_debouncer)
           = run_invocations 250 ?evs new_debouncer"
    using T a by blast
  have 2: "downstream (run_timers 340 (run_invocations 250 ?evs new_debouncer))
             = downstream (new_debouncer :: string debouncer) @ [(fst (last ?evs) + 250, snd (last ?evs))]
           \<and> timers (run_timers 340 (run_invocations 250 ?evs new_debouncer)) = []"
    using T b by blast
  show ?thesis
    using T 1 2 i w by (simp add: new_debouncer_def)
qed

section \<open>The search session: proofs\<close>

lemma update_xhr_fields [simp]:
  "request (update_xhr h f s) = request s"
  "results (update_xhr h f s) = results s"
  "errors (update_xhr h f s) = errors s"
  "calls (update_xhr h f s) = calls s"
  "length (xhrs (update_xhr h f s)) = length (xhrs s)"
  by (simp_all add: update_xhr_def)

lemma xhrs_update_xhr: "xhrs (update_xhr h f s) = (xhrs s)[h := f (xhrs s ! h)]"
  by (simp add: update_xhr_def)

lemma nth_update_xhr:
  "xhrs (update_xhr h f s) ! k = (if k = h \<and> h < length (xhrs s) then f (xhrs s ! h) else xhrs s ! k)"
  by (cases "h < length (xhrs s)") (auto simp: xhrs_update_xhr nth_list_update list_update_beyond)

lemma handler_frame:
  "length (xhrs (readystatechange_handler h s)) = length (xhrs s)"
  "readyState (xhrs (readystatechange_handler h s) ! k) = readyState (xhrs s ! k)"
  "calls (readystatechange_handler h s) = calls s"
  "request (readystatechange_handler h s) = request s \<or> request (readystatechange_handler h s) = None"
  by (auto simp: readystatechange_handler_def success_def complete_def error_def
      set_results_def nth_update_xhr split: option.splits prod.splits)

lemma handler_errors:
  "errors (readystatechange_handler h s) = errors s
   \<or> errors (readystatechange_handler h s) = errors s @ [(h, response (xhrs s ! h))]"
  by (auto simp: readystatechange_handler_def success_def complete_def error_def
      set_results_def split: option.splits prod.splits)

lemma fire_frame:
  "length (xhrs (fire_readystatechange h s)) = length (xhrs s)"
  "readyState (xhrs (fire_readystatechange h s) ! k) = readyState (xhrs s ! k)"
  "calls (fire_readystatechange h s) = calls s"
  "request (fire_readystatechange h s) = request s \<or> request (fire_readystatechange h s) = None"
  using handler_frame(4)[of h s] by (auto simp: fire_readystatechange_def handler_frame(1-3))

lemma fire_errors:
  "errors (fire_readystatechange h s) = errors s
   \<or> errors (fire_readystatechange h s) = errors s @ [(h, response (xhrs s ! h))]"
  using handler_errors[of h s] by (auto simp: fire_readystatechange_def)

lemma pending_cong:
  "length (xhrs s') = length (xhrs s) \<Longrightarrow> readyState (xhrs s' ! k) = readyState (xhrs s ! k) \<Longrightarrow>
   pending s' k = pending s k"
  by (simp add: pending_def in_flight_def)

lemma handler_error_results:
  "status (xhrs s ! h) \<noteq> 200 \<Longrightarrow> results (readystatechange_handler h s) = results s"
  by (simp add: readystatechange_handler_def complete_def error_def)

lemma xhr_abort_frame:
  "length (xhrs (xhr_abort h s)) = length (xhrs s)"
  "k \<noteq> h \<Longrightarrow> readyState (xhrs (xhr_abort h s) ! k) = readyState (xhrs s ! k)"
  "calls (xhr_abort h s) = calls s"
  by (simp_all add: xhr_abort_def fire_frame nth_update_xhr)

lemma xhr_abort_results: "results (xhr_abort h s) = results s"
  by (simp add: xhr_abort_def fire_readystatechange_def handler_error_results nth_update_xhr)

lemma xhr_abort_not_pending: "\<not> pending (xhr_abort h s) h"
  by (auto simp: pending_def xhr_abort_def in_flight_def fire_frame nth_update_xhr)

lemma xhr_abort_pending:
  assumes "pending s h" "onreadystatechange (xhrs s ! h)"
  shows "errors (xhr_abort h s) = errors s @ [(h, None)]"
    and "\<not> onreadystatechange (xhrs (xhr_abort h s) ! h)"
  using assms
  by (simp_all add: pending_def xhr_abort_def fire_readystatechange_def readystatechange_handler_def
      complete_def error_def nth_update_xhr)

lemma xhr_abort_errors_other:
  "k \<noteq> h \<Longrightarrow> filter (\<lambda>(j, r). j = h) (errors (xhr_abort k s)) = filter (\<lambda>(j, r). j = h) (errors s)"
proof -
  assume kh: "k \<noteq> h"
  let ?u = "update_xhr k (\<lambda>x. x\<lparr>readyState := DONE, status := 0, response := None\<rparr>) s"
  have "errors (fire_readystatechange k ?u) = errors s
        \<or> errors (fire_readystatechange k ?u) = errors s @ [(k, response (xhrs ?u ! k))]"
    using fire_errors[of k ?u] by simp
  then show ?thesis using kh by (auto simp: xhr_abort_def)
qed

lemma abort_prior_quiet: "session_inv s \<Longrightarrow> \<not> pending (abort_prior s) k"
proof (cases "request s")
  case None
  assume "session_inv s"
  then show ?thesis using None by (auto simp: session_inv_def abort_prior_def)
next
  case (Some h)
  assume i: "session_inv s"
  let ?s0 = "s\<lparr>calls := calls s @ [Abort h]\<rparr>"
  have p0: "\<And>j. pending ?s0 j = pending s j" by (simp add: pending_def)
  show ?thesis
  proof (cases "k = h")
    case True
    then show ?thesis using Some by (simp add: abort_prior_def xhr_abort_not_pending)
  next
    case False
    then have "pending (xhr_abort h ?s0) k = pending ?s0 k"
      by (intro pending_cong) (simp_all add: xhr_abort_frame)
    moreover have "\<not> pending s k" using i Some False by (auto simp: session_inv_def)
    ultimately show ?thesis using Some p0 by (simp add: abort_prior_def)
  qed
qed

lemma abort_prior_frame:
  "length (xhrs (abort_prior s)) = length (xhrs s)"
  "results (abort_prior s) = results s"
  by (auto simp: abort_prior_def xhr_abort_frame xhr_abort_results split: option.splits)

lemma abort_prior_calls:
  "request s = Some h \<Longrightarrow> calls (abort_prior s) = calls s @ [Abort h]"
  by (simp add: abort_prior_def xhr_abort_frame)

lemma searchTrack_fields:
  "request (searchTrack t s) = Some (length (xhrs s))"
  "results (searchTrack t s) = results s"
  "length (xhrs (searchTrack t s)) = Suc (length (xhrs s))"
  "calls (searchTrack t s) = calls (abort_prior s) @ [Send (length (xhrs s)) t]"
  "errors (searchTrack t s) = errors (abort_prior s)"
  "onreadystatechange (xhrs (searchTrack t s) ! length (xhrs s))"
  "k < length (xhrs s) \<Longrightarrow> xhrs (searchTrack t s) ! k = xhrs (abort_prior s) ! k"
  by (simp_all add: searchTrack_def HttpRequest_def abort_prior_frame nth_append)

lemma searchTrack_pending:
  "session_inv s \<Longrightarrow> pending (searchTrack t s) k = (k = length (xhrs s))"
proof -
  assume i: "session_inv s"
  let ?a = "abort_prior s"
  have q: "\<And>j. \<not> pending ?a j" using i by (rule abort_prior_quiet)
  have len: "length (xhrs ?a) = length (xhrs s)" by (rule abort_prior_frame)
  show ?thesis
  proof (cases "k < length (xhrs ?a)")
    case True
    then show ?thesis using q[of k] len
      by (auto simp: searchTrack_def HttpRequest_def pending_def nth_append)
  next
    case False
    then show ?thesis using len
      by (auto simp: searchTrack_def HttpRequest_def pending_def nth_append in_flight_def)
  qed
qed

lemma inv_searchTrack: "session_inv s \<Longrightarrow> session_inv (searchTrack t s)"
  by (simp add: session_inv_def[of "searchTrack t s"] searchTrack_pending searchTrack_fields)

lemma next_state_in_flight:
  "in_flight x \<Longrightarrow> in_flight (x\<lparr>readyState := next_state (readyState x)\<rparr>)"
  by (cases "readyState x") (auto simp: in_flight_def)

lemma step_Progress_eq:
  "step (Progress h) s =
     (if pending s h then update_xhr h (\<lambda>x. x\<lparr>readyState := next_state (readyState x)\<rparr>) s else s)"
proof -
  let ?u = "update_xhr h (\<lambda>x. x\<lparr>readyState := next_state (readyState x)\<rparr>) s"
  have "pending s h \<Longrightarrow> readyState (xhrs ?u ! h) \<noteq> DONE"
    using next_state_in_flight[of "xhrs s ! h"] by (auto simp: pending_def in_flight_def nth_update_xhr)
  then have "pending s h \<Longrightarrow> fire_readystatechange h ?u = ?u"
    by (simp add: fire_readystatechange_def readystatechange_handler_def)
  then show ?thesis by simp
qed

lemma step_Progress_frame:
  "request (step (Progress h) s) = request s"
  "results (step (Progress h) s) = results s"
  "errors (step (Progress h) s) = errors s"
  "length (xhrs (step (Progress h) s)) = length (xhrs s)"
  "pending (step (Progress h) s) k = pending s k"
  "onreadystatechange (xhrs (step (Progress h) s) ! k) = onreadystatechange (xhrs s ! k)"
proof -
  show "pending (step (Progress h) s) k = pending s k"
    using next_state_in_flight[of "xhrs s ! h"]
    by (auto simp: step_Progress_eq pending_def nth_update_xhr simp del: step.simps)
qed (simp_all add: step_Progress_eq nth_update_xhr del: step.simps)

lemma step_Done_frame:
  "length (xhrs (step (Done h st resp) s)) = length (xhrs s)"
  "request (step (Done h st resp) s) = request s \<or> request (step (Done h st resp) s) = None"
  "k \<noteq> h \<Longrightarrow> readyState (xhrs (step (Done h st resp) s) ! k) = readyState (xhrs s ! k)"
  using fire_frame(4)[of h "update_xhr h (\<lambda>x. x\<lparr>readyState := DONE, status := st, response := resp\<rparr>) s"]
  by (auto simp: fire_frame(1-3) nth_update_xhr)

lemma step_Done_quiet:
  "session_inv s \<Longrightarrow> pending s h \<Longrightarrow> \<not> pending (step (Done h st resp) s) k"
proof -
  assume i: "session_inv s" and p: "pending s h"
  let ?u = "update_xhr h (\<lambda>x. x\<lparr>readyState := DONE, status := st, response := resp\<rparr>) s"
  have "pending (fire_readystatechange h ?u) k = pending ?u k"
    by (intro pending_cong) (simp_all add: fire_frame)
  moreover have "\<not> pending ?u k"
  proof (cases "k = h")
    case True
    then show ?thesis using p by (simp add: pending_def in_flight_def nth_update_xhr)
  next
    case False
    have "request s = Some h" using i p by (simp add: session_inv_def)
    moreover have "pending s k \<Longrightarrow> request s = Some k" using i by (simp add: session_inv_def)
    ultimately have "\<not> pending s k" using False by auto
    then show ?thesis using False by (simp add: pending_def nth_update_xhr)
  qed
  ultimately show ?thesis using p by simp
qed

lemma session_invI:
  "(\<And>h. pending s h \<Longrightarrow> request s = Some h \<and> onreadystatechange (xhrs s ! h)) \<Longrightarrow>
   (\<And>h. request s = Some h \<Longrightarrow> h < length (xhrs s)) \<Longrightarrow> session_inv s"
  unfolding session_inv_def by blast

lemma session_invD:
  "session_inv s \<Longrightarrow> pending s h \<Longrightarrow> request s = Some h"
  "session_inv s \<Longrightarrow> pending s h \<Longrightarrow> onreadystatechange (xhrs s ! h)"
  "session_inv s \<Longrightarrow> request s = Some h \<Longrightarrow> h < length (xhrs s)"
  unfolding session_inv_def by blast+

lemma inv_step_Progress: "session_inv s \<Longrightarrow> session_inv (step (Progress h) s)"
proof (rule session_invI)
  fix k
  assume i: "session_inv s" and "pending (step (Progress h) s) k"
  then have p: "pending s k"
    by (simp only: step_Progress_frame)
  show "request (step (Progress h) s) = Some k \<and> onreadystatechange (xhrs (step (Progress h) s) ! k)"
    using session_invD(1,2)[OF i p] by (simp only: step_Progress_frame)
next
  fix k
  assume i: "session_inv s" and "request (step (Progress h) s) = Some k"
  then have "request s = Some k"
    by (simp only: step_Progress_frame)
  then show "k < length (xhrs (step (Progress h) s))"
    using session_invD(3)[OF i] by (simp only: step_Progress_frame)
qed

lemma inv_step_Done: "session_inv s \<Longrightarrow> session_inv (step (Done h st resp) s)"
proof (cases "pending s h")
  case False
  assume "session_inv s"
  then show ?thesis using False by simp
next
  case True
  assume i: "session_inv s"
  show ?thesis
  proof (rule session_invI)
    fix k
    assume "pending (step (Done h st resp) s) k"
    then show "request (step (Done h st resp) s) = Some k
               \<and> onreadystatechange (xhrs (step (Done h st resp) s) ! k)"
      using step_Done_quiet[OF i True] by blast
  next
    fix k
    assume r: "request (step (Done h st resp) s) = Some k"
    have "request (step (Done h st resp) s) = request s \<or> request (step (Done h st resp) s) = None"
      by (rule step_Done_frame(2))
    then have "request s = Some k"
      using r by auto
    then have "k < length (xhrs s)"
      by (rule session_invD(3)[OF i])
    then show "k < length (xhrs (step (Done h st resp) s))"
      by (simp only: step_Done_frame(1))
  qed
qed

lemma inv_step: "session_inv s \<Longrightarrow> session_inv (step e s)"
proof (cases e)
  case (Change v)
  assume i: "session_inv s"
  have p: "\<And>k. pending (empty_results s) k = pending s k"
    by (simp add: empty_results_def pending_def)
  have "session_inv (empty_results s)"
  proof (rule session_invI)
    fix k
    assume "pending (empty_results s) k"
    then have "pending s k"
      by (simp only: p)
    then show "request (empty_results s) = Some k \<and> onreadystatechange (xhrs (empty_results s) ! k)"
      using session_invD(1,2)[OF i] by (simp add: empty_results_def)
  next
    fix k
    assume "request (empty_results s) = Some k"
    then have "request s = Some k"
      by (simp add: empty_results_def)
    then show "k < length (xhrs (empty_results s))"
      using session_invD(3)[OF i] by (simp add: empty_results_def)
  qed
  moreover have "session_inv (searchTrack v s)"
    using i by (rule inv_searchTrack)
  ultimately show ?thesis
    unfolding Change by (simp add: on_change_def)
next
  case (Progress h)
  assume "session_inv s"
  then show ?thesis unfolding Progress by (rule inv_step_Progress)
next
  case (Done h st resp)
  assume "session_inv s"
  then show ?thesis unfolding Done by (rule inv_step_Done)
qed

lemma inv_new: "session_inv new_session"
  by (simp add: session_inv_def pending_def new_session_def)

lemma run_snoc: "run (es @ [e]) s = step e (run es s)"
  by (simp add: run_def)

lemma run_append: "run (es @ es') s = run es' (run es s)"
  by (simp add: run_def)

lemma inv_run_from: "session_inv s \<Longrightarrow> session_inv (run es s)"
  by (induction es rule: rev_induct) (simp_all add: run_snoc inv_step, simp add: run_def)

lemma inv_run: "session_inv (run es new_session)"
  by (rule inv_run_from[OF inv_new])

lemma at_most_one: "session_inv s \<Longrightarrow> card {h. pending s h} \<le> 1"
proof -
  assume i: "session_inv s"
  show ?thesis
  proof (cases "request s")
    case None
    then have "{h. pending s h} = {}" using i by (auto simp: session_inv_def)
    then show ?thesis by simp
  next
    case (Some h0)
    then have "{h. pending s h} \<subseteq> {h0}" using i by (auto simp: session_inv_def)
    then have "card {h. pending s h} \<le> card {h0}" by (intro card_mono) auto
    then show ?thesis by simp
  qed
qed






lemma abort_prior_pending:
  assumes "session_inv s" "pending s h"
  shows "errors (abort_prior s) = errors s @ [(h, None)]"
    and "\<not> onreadystatechange (xhrs (abort_prior s) ! h)"
proof -
  let ?s0 = "s\<lparr>calls := calls s @ [Abort h]\<rparr>"
  have r: "request s = Some h"
    using assms by (rule session_invD(1))
  have p0: "pending ?s0 h" and h0: "onreadystatechange (xhrs ?s0 ! h)"
    using assms session_invD(2)[OF assms] by (simp_all add: pending_def)
  show "errors (abort_prior s) = errors s @ [(h, None)]"
    using xhr_abort_pending(1)[OF p0 h0] r by (simp add: abort_prior_def)
  show "\<not> onreadystatechange (xhrs (abort_prior s) ! h)"
    using xhr_abort_pending(2)[OF p0 h0] r by (simp add: abort_prior_def)
qed


lemma abort_prior_errors_other:
  "request s \<noteq> Some h \<Longrightarrow>
   filter (\<lambda>(j, r). j = h) (errors (abort_prior s)) = filter (\<lambda>(j, r). j = h) (errors s)"
proof (cases "request s")
  case None
  then show ?thesis by (simp add: abort_prior_def)
next
  case (Some k)
  assume "request s \<noteq> Some h"
  then have "k \<noteq> h" using Some by simp
  then show ?thesis
    using xhr_abort_errors_other[of k h "s\<lparr>calls := calls s @ [Abort k]\<rparr>"] Some
    by (simp add: abort_prior_def)
qed

lemma retired_step:
  assumes i: "session_inv s" and r: "retired s h"
  shows "retired (step e s) h"
    and "filter (\<lambda>(j, r). j = h) (errors (step e s)) = filter (\<lambda>(j, r). j = h) (errors s)"
proof -
  have hl: "h < length (xhrs s)" and np: "\<not> pending s h" and nr: "request s \<noteq> Some h"
    using r by (simp_all add: retired_def)
  have "retired (step e s) h
        \<and> filter (\<lambda>(j, r). j = h) (errors (step e s)) = filter (\<lambda>(j, r). j = h) (errors s)"
  proof (cases e)
    case (Change v)
    have 1: "retired (empty_results s) h" "errors (empty_results s) = errors s"
      using r by (simp_all add: retired_def empty_results_def pending_def)
    have 2: "retired (searchTrack v s) h"
      using hl by (simp add: retired_def searchTrack_pending[OF i] searchTrack_fields)
    have 3: "filter (\<lambda>(j, r). j = h) (errors (searchTrack v s)) = filter (\<lambda>(j, r). j = h) (errors s)"
      using abort_prior_errors_other[OF nr] by (simp add: searchTrack_fields)
    show ?thesis
      unfolding Change using 1 2 3 by (simp add: on_change_def)
  next
    case (Progress k)
    show ?thesis
      unfolding Progress using r by (simp add: retired_def step_Progress_frame del: step.simps)
  next
    case (Done k st resp)
    show ?thesis
    proof (cases "pending s k")
      case False
      then show ?thesis unfolding Done using r by simp
    next
      case True
      then have kh: "k \<noteq> h" using np by auto
      let ?u = "update_xhr k (\<lambda>x. x\<lparr>readyState := DONE, status := st, response := resp\<rparr>) s"
      have "request (step (Done k st resp) s) = request s \<or> request (step (Done k st resp) s) = None"
        by (rule step_Done_frame(2))
      then have a: "request (step (Done k st resp) s) \<noteq> Some h"
        using nr by auto
      have b: "\<not> pending (step (Done k st resp) s) h"
        by (rule step_Done_quiet[OF i True])
      have c: "h < length (xhrs (step (Done k st resp) s))"
        using hl by (simp only: step_Done_frame(1))
      have "errors (fire_readystatechange k ?u) = errors ?u
            \<or> errors (fire_readystatechange k ?u) = errors ?u @ [(k, response (xhrs ?u ! k))]"
        by (rule fire_errors)
      then have d: "filter (\<lambda>(j, r). j = h) (errors (step (Done k st resp) s))
                  = filter (\<lambda>(j, r). j = h) (errors s)"
        using True kh by auto
      show ?thesis
        unfolding Done using a b c d by (simp add: retired_def del: step.simps)
    qed
  qed
  then show "retired (step e s) h"
    and "filter (\<lambda>(j, r). j = h) (errors (step e s)) = filter (\<lambda>(j, r). j = h) (errors s)"
    by simp_all
qed

lemma retired_run:
  "session_inv s \<Longrightarrow> retired s h \<Longrightarrow>
   retired (run es s) h
   \<and> filter (\<lambda>(j, r). j = h) (errors (run es s)) = filter (\<lambda>(j, r). j = h) (errors s)"
proof (induction es rule: rev_induct)
  case Nil
  then show ?case by (simp add: run_def)
next
  case (snoc e es)
  have i: "session_inv (run es s)"
    using snoc.prems(1) by (rule inv_run_from)
  have r: "retired (run es s) h"
    using snoc by simp
  show ?case
    unfolding run_snoc using retired_step[OF i r, of e] snoc by simp
qed

lemmas session_defs =
  run_def on_change_def searchTrack_def HttpRequest_def abort_prior_def xhr_abort_def
  fire_readystatechange_def readystatechange_handler_def success_def error_def complete_def
  update_xhr_def pending_def in_flight_def new_session_def MIN_TERM_LENGTH_def
  empty_results_def set_results_def format_results_def splice_js_def MAX_RESULTS_def render_def

text \<open>
  C1. In every state that a run of events reaches from the new session (calls of the
  input handler, and whatever the transport delivers in between), at most one request
  is pending, and it is the one \<^verbatim>\<open>request\<close> refers to. When \<^verbatim>\<open>searchTrack\<close> is
  called while a request is pending, the first statement aborts it, which leaves nothing
  pending; only then the new request is made and sent, and it is the one pending request
  and the value of \<^verbatim>\<open>request\<close> afterwards. The transport sees \<^verbatim>\<open>abort\<close> on the old
  handle before \<^verbatim>\<open>send\<close> on the new one.
\<close>

theorem at_most_one_pending:
  "s = run es new_session \<Longrightarrow>
   card {h. pending s h} \<le> 1
   \<and> (\<forall>h. pending s h \<longrightarrow> request s = Some h)
   \<and> (\<forall>h t. pending s h \<longrightarrow>
        (\<forall>k. \<not> pending (abort_prior s) k)
        \<and> calls (abort_prior s) = calls s @ [Abort h]
        \<and> calls (searchTrack t s) = calls s @ [Abort h, Send (length (xhrs s)) t]
        \<and> \<not> pending (searchTrack t s) h
        \<and> request (searchTrack t s) = Some (length (xhrs s))
        \<and> (\<forall>k. pending (searchTrack t s) k \<longleftrightarrow> k = length (xhrs s)))"
proof -
  assume "s = run es new_session"
  then have i: "session_inv s"
    by (simp add: inv_run)
  have cur: "\<forall>h. pending s h \<longrightarrow> request s = Some h"
    using i by (simp add: session_inv_def)
  have super: "\<forall>h t. pending s h \<longrightarrow>
        (\<forall>k. \<not> pending (abort_prior s) k)
        \<and> calls (abort_prior s) = calls s @ [Abort h]
        \<and> calls (searchTrack t s) = calls s @ [Abort h, Send (length (xhrs s)) t]
        \<and> \<not> pending (searchTrack t s) h
        \<and> request (searchTrack t s) = Some (length (xhrs s))
        \<and> (\<forall>k. pending (searchTrack t s) k \<longleftrightarrow> k = length (xhrs s))"
  proof (intro allI impI)
    fix h t
    assume p: "pending s h"
    then have r: "request s = Some h"
      using cur by simp
    have ne: "h \<noteq> length (xhrs s)"
      using p by (simp add: pending_def)
    have c1: "calls (abort_prior s) = calls s @ [Abort h]"
      using r by (rule abort_prior_calls)
    have c2: "calls (searchTrack t s) = calls s @ [Abort h, Send (length (xhrs s)) t]"
      by (simp add: searchTrack_fields(4) c1)
    show "(\<forall>k. \<not> pending (abort_prior s) k)
        \<and> calls (abort_prior s) = calls s @ [Abort h]
        \<and> calls (searchTrack t s) = calls s @ [Abort h, Send (length (xhrs s)) t]
        \<and> \<not> pending (searchTrack t s) h
        \<and> request (searchTrack t s) = Some (length (xhrs s))
        \<and> (\<forall>k. pending (searchTrack t s) k \<longleftrightarrow> k = length (xhrs s))"
      using abort_prior_quiet[OF i] c1 c2 ne searchTrack_pending[OF i] searchTrack_fields(1)
      by simp
  qed
  show ?thesis
    using at_most_one[OF i] cur super by blast
qed

text \<open>A search for \<^verbatim>\<open>"abcd"\<close> while the request for \<^verbatim>\<open>"abc"\<close> is pending.\<close>

theorem at_most_one_pending_witness:
  "pending (run [Change ''abc''] new_session) 0
   \<and> calls (searchTrack ''abcd'' (run [Change ''abc''] new_session))
       = [Send 0 ''abc'', Abort 0, Send 1 ''abcd'']
   \<and> request (searchTrack ''abcd'' (run [Change ''abc''] new_session)) = Some 1
   \<and> \<not> pending (searchTrack ''abcd'' (run [Change ''abc''] new_session)) 0
   \<and> pending (searchTrack ''abcd'' (run [Change ''abc''] new_session)) 1"
proof -
  let ?s = "run [Change ''abc''] new_session"
  have p: "pending ?s 0" and l: "length (xhrs ?s) = 1" and c: "calls ?s = [Send 0 ''abc'']"
    by (simp_all add: session_defs)
  from at_most_one_pending[OF refl, of "[Change ''abc'']"]
  have "pending ?s 0 \<longrightarrow>
          calls (searchTrack ''abcd'' ?s) = calls ?s @ [Abort 0, Send (length (xhrs ?s)) ''abcd'']
          \<and> \<not> pending (searchTrack ''abcd'' ?s) 0
          \<and> request (searchTrack ''abcd'' ?s) = Some (length (xhrs ?s))
          \<and> (\<forall>k. pending (searchTrack ''abcd'' ?s) k \<longleftrightarrow> k = length (xhrs ?s))"
    by blast
  with p show ?thesis
    by (simp add: l c)
qed



text \<open>
  C3 as stated fails: a request superseded while pending is surfaced as an error. The
  abort completes it with status 0, and the handler passes every completion whose status
  is not 200 to the error callback, which writes to \<^verbatim>\<open>console.error\<close>.
\<close>

theorem superseded_request_logs_error_counterexample:
  "errors (run [Change ''abc'', Change ''abcd''] new_session) = [(0, None)]
   \<and> calls (run [Change ''abc'', Change ''abcd''] new_session)
       = [Send 0 ''abc'', Abort 0, Send 1 ''abcd'']"
  by (simp add: session_defs)

text \<open>
  C3, as the code has it. A request that is pending when \<^verbatim>\<open>searchTrack\<close> is called
  again is reported to the error callback once, by the abort, with the response
  \<^verbatim>\<open>null\<close>. It changes no results. From then on it is not pending and has no handler,
  and whatever events follow, nothing more is reported for it.
\<close>

theorem superseded_request_reported_once:
  "s = run es new_session \<Longrightarrow> pending s h \<Longrightarrow>
   errors (searchTrack t s) = errors s @ [(h, None)]
   \<and> results (searchTrack t s) = results s
   \<and> \<not> pending (searchTrack t s) h
   \<and> \<not> onreadystatechange (xhrs (searchTrack t s) ! h)
   \<and> filter (\<lambda>(j, r). j = h) (errors (run es' (searchTrack t s)))
       = filter (\<lambda>(j, r). j = h) (errors s) @ [(h, None)]
   \<and> \<not> pending (run es' (searchTrack t s)) h"
proof -
  assume "s = run es new_session" and p: "pending s h"
  then have i: "session_inv s"
    by (simp add: inv_run)
  have hl: "h < length (xhrs s)"
    using p by (simp add: pending_def)
  have e: "errors (searchTrack t s) = errors s @ [(h, None)]"
    using abort_prior_pending(1)[OF i p] by (simp add: searchTrack_fields)
  have np: "\<not> pending (searchTrack t s) h"
    using hl by (simp add: searchTrack_pending[OF i])
  have d: "\<not> onreadystatechange (xhrs (searchTrack t s) ! h)"
    using abort_prior_pending(2)[OF i p] hl by (simp add: searchTrack_fields)
  have r: "retired (searchTrack t s) h"
    using hl np by (simp add: retired_def searchTrack_fields)
  have i': "session_inv (searchTrack t s)"
    using i by (rule inv_searchTrack)
  have f: "retired (run es' (searchTrack t s)) h
     \<and> filter (\<lambda>(j, r). j = h) (errors (run es' (searchTrack t s)))
       = filter (\<lambda>(j, r). j = h) (errors (searchTrack t s))"
    using i' r by (rule retired_run)
  show ?thesis
    using e np d f by (simp add: searchTrack_fields retired_def)
qed

theorem superseded_request_reported_once_witness:
  "pending (run [Change ''abc''] new_session) 0
   \<and> errors (run [Change ''abc''] new_session) = []
   \<and> errors (searchTrack ''abcd'' (run [Change ''abc''] new_session)) = [(0, None)]
   \<and> filter (\<lambda>(j, r). j = 0)
        (errors (run [Done 0 500 None, Change ''abcde'', Done 0 200 (Some [])]
                  (searchTrack ''abcd'' (run [Change ''abc''] new_session)))) = [(0, None)]"
proof -
  let ?s = "run [Change ''abc''] new_session"
  have p: "pending ?s 0" and e: "errors ?s = []"
    by (simp_all add: session_defs)
  show ?thesis
    using superseded_request_reported_once[OF refl p, of "''abcd''"
        "[Done 0 500 None, Change ''abcde'', Done 0 200 (Some [])]"] p e
    by simp
qed

text \<open>
  C4. A term shorter than the minimum is to empty the results, call no provider and
  cancel a request that is pending. The code does the first two and misses the third: the
  input handler returns after emptying the results (line 357) and never reaches
  \<^verbatim>\<open>searchTrack\<close>, the only place that aborts. The code at the input \<^verbatim>\<open>"abc"\<close>, then
  \<^verbatim>\<open>"ab"\<close>: the results are empty and the provider has been called for \<^verbatim>\<open>"abc"\<close>
  only, but the request for \<^verbatim>\<open>"abc"\<close> is still pending and the transport has seen no
  abort; when its answer arrives it is displayed, although the input is too short.
\<close>

theorem short_term_leaves_request_pending:
  "results (run [Change ''abc'', Change ''ab''] new_session) = []
   \<and> calls (run [Change ''abc'', Change ''ab''] new_session) = [Send 0 ''abc'']
   \<and> pending (run [Change ''abc'', Change ''ab''] new_session) 0
   \<and> request (run [Change ''abc'', Change ''ab''] new_session) = Some 0
   \<and> results (run [Change ''abc'', Change ''ab'',
                    Done 0 200 (Some [\<lparr>artistName = ''A'', trackName = ''T1''\<rparr>])] new_session)
       = [''A - T1'']"
  by (simp add: session_defs)

end
